theory Spec2Isabelle
  imports
    Main
    "HOL-Library.Word"
    "HOL-Library.Signed_Division"
    "HOL-Library.Monad_Syntax"
begin

section \<open>Conway's Game of Life on a torus: GameOfLife_sequential.c\<close>

text \<open>
  The board is a C array of \<open>N * N\<close> values of type \<open>int\<close>, addressed as
  \<open>X[N * row + col]\<close>. A cell is a 32-bit word: the sum of eight cells wraps
  around, and the comparisons \<open>sum < 2\<close> and \<open>sum > 3\<close> read the word as a
  signed value (\<open>sint\<close>).

  The loop counters, the side \<open>N\<close>, the indices and the three tallies are
  modelled by \<open>int\<close>. For a board of side \<open>N \<ge> 1\<close> every value they take
  lies between \<open>-1\<close> and \<open>N * N\<close>, and \<open>N * N\<close> is a C \<open>int\<close> wherever
  the program has a board at all (it is the count passed to \<open>malloc\<close> and
  \<open>fread\<close>), so none of these computations overflows.
  The operator \<open>%\<close> of C truncates towards zero: it is \<open>smod\<close>.

  What the program prints on standard output (the cells shown by
  \<open>printCells\<close>, the file name, the count of elements read, the time of each
  generation) and the calls of \<open>fclose\<close> and \<open>free\<close> are left out; \<open>die\<close>
  and \<open>warn\<close> are kept as the fault that ends the run and the warning that
  is shown.
\<close>

type_synonym cint = "32 word"

datatype fault =
    Died string         \<comment> \<open>\<open>die(message)\<close>: the message is shown and the process exits\<close>
  | Undefined string    \<comment> \<open>an operation whose behaviour C leaves undefined\<close>

datatype diag = Warning string   \<comment> \<open>\<open>warn(message)\<close>: shown, the run continues\<close>

subsection \<open>Array accesses\<close>

text \<open>
  A read or a write outside the array is undefined in C. The accessors return
  \<open>None\<close> there, and the loops hand that on.
\<close>

definition rd :: "cint list \<Rightarrow> int \<Rightarrow> cint option" where
  "rd A k = (if 0 \<le> k \<and> k < int (length A) then Some (A ! nat k) else None)"

definition wr :: "cint list \<Rightarrow> int \<Rightarrow> cint \<Rightarrow> cint list option" where
  "wr A k v = (if 0 \<le> k \<and> k < int (length A) then Some (A[nat k := v]) else None)"

subsection \<open>play: the counting and rule loops\<close>

text \<open>
  The local variable \<open>sum\<close> of \<open>play\<close> for cell \<open>(i, j)\<close>: the eight reads of
  \<open>X\<close> at the indices built from \<open>up\<close>, \<open>down\<close>, \<open>left\<close> and \<open>right\<close>.
  A remainder by \<open>N = 0\<close> is undefined.
\<close>

definition play_sum :: "cint list \<Rightarrow> int \<Rightarrow> int \<Rightarrow> int \<Rightarrow> cint option" where
  "play_sum X N i j =
    (if N = 0 then None
     else do {
       let up = ((i - 1) + N) smod N;
       let down = (i + 1) smod N;
       let left = ((j - 1) + N) smod N;
       let right = (j + 1) smod N;
       a \<leftarrow> rd X (N * up + left);
       b \<leftarrow> rd X (N * up + j);
       c \<leftarrow> rd X (N * up + right);
       d \<leftarrow> rd X (N * i + left);
       e \<leftarrow> rd X (N * i + right);
       f \<leftarrow> rd X (N * down + left);
       g \<leftarrow> rd X (N * down + j);
       h \<leftarrow> rd X (N * down + right);
       Some (a + b + c + d + e + f + g + h)
     })"

text \<open>What the first loop nest of \<open>play\<close> changes: the buffer \<open>new\<close> and the tallies.\<close>

record tally =
  new :: "cint list"
  births :: int
  deaths :: int
  ok :: int

text \<open>The body of the inner loop: the rules, acting on cell \<open>(i, j)\<close>.\<close>

definition play_cell :: "cint list \<Rightarrow> int \<Rightarrow> int \<Rightarrow> int \<Rightarrow> tally \<Rightarrow> tally option" where
  "play_cell X N i j s =
    do {
      sum \<leftarrow> play_sum X N i j;
      x \<leftarrow> rd X (i * N + j);
      if x = 0 \<and> sum = 3 then
        do {
          new' \<leftarrow> wr (new s) (i * N + j) 1;
          Some (s\<lparr>new := new', births := births s + 1\<rparr>)
        }
      else if x = 1 \<and> (sint sum < 2 \<or> sint sum > 3) then
        do {
          new' \<leftarrow> wr (new s) (i * N + j) 0;
          Some (s\<lparr>new := new', deaths := deaths s + 1\<rparr>)
        }
      else
        do {
          new' \<leftarrow> wr (new s) (i * N + j) x;
          Some (s\<lparr>new := new', ok := ok s + 1\<rparr>)
        }
    }"

text \<open>\<open>for(j=0;j<N;j++)\<close>, entered at \<open>j\<close>.\<close>

function play_cols :: "cint list \<Rightarrow> int \<Rightarrow> int \<Rightarrow> int \<Rightarrow> tally \<Rightarrow> tally option" where
  "play_cols X N i j s =
    (if j < N then
       (case play_cell X N i j s of
          None \<Rightarrow> None
        | Some s' \<Rightarrow> play_cols X N i (j + 1) s')
     else Some s)"
  by pat_completeness auto
termination
  by (relation "measure (\<lambda>(X, N, i, j, s). nat (N - j))") auto

text \<open>\<open>for(i=0; i<N;i++)\<close>, entered at \<open>i\<close>.\<close>

function play_rows :: "cint list \<Rightarrow> int \<Rightarrow> int \<Rightarrow> tally \<Rightarrow> tally option" where
  "play_rows X N i s =
    (if i < N then
       (case play_cols X N i 0 s of
          None \<Rightarrow> None
        | Some s' \<Rightarrow> play_rows X N (i + 1) s')
     else Some s)"
  by pat_completeness auto
termination
  by (relation "measure (\<lambda>(X, N, i, s). nat (N - i))") auto

subsection \<open>play: copying the board back\<close>

text \<open>The two copy loops; \<open>nw\<close> is the filled buffer \<open>new\<close>.\<close>

function copy_cols :: "cint list \<Rightarrow> int \<Rightarrow> int \<Rightarrow> int \<Rightarrow> cint list \<Rightarrow> cint list option" where
  "copy_cols nw N i j X =
    (if j < N then
       (case rd nw (i * N + j) of
          None \<Rightarrow> None
        | Some v \<Rightarrow>
           (case wr X (i * N + j) v of
              None \<Rightarrow> None
            | Some X' \<Rightarrow> copy_cols nw N i (j + 1) X'))
     else Some X)"
  by pat_completeness auto
termination
  by (relation "measure (\<lambda>(nw, N, i, j, X). nat (N - j))") auto

function copy_rows :: "cint list \<Rightarrow> int \<Rightarrow> int \<Rightarrow> cint list \<Rightarrow> cint list option" where
  "copy_rows nw N i X =
    (if i < N then
       (case copy_cols nw N i 0 X of
          None \<Rightarrow> None
        | Some X' \<Rightarrow> copy_rows nw N (i + 1) X')
     else Some X)"
  by pat_completeness auto
termination
  by (relation "measure (\<lambda>(nw, N, i, X). nat (N - i))") auto

subsection \<open>play\<close>

text \<open>
  One generation. \<open>malloc_new\<close> is what \<open>malloc(N*N*sizeof(int))\<close> returns:
  \<open>None\<close> for a null pointer, otherwise the fresh buffer with the values it
  happens to hold. The result is the board \<open>X\<close> after the call and the
  warnings shown.
\<close>

definition play :: "cint list \<Rightarrow> int \<Rightarrow> cint list option \<Rightarrow> fault + (cint list \<times> diag list)" where
  "play X N malloc_new =
    (case malloc_new of
       None \<Rightarrow> Inl (Died ''Memory allocation failed'')
     | Some new0 \<Rightarrow>
        (case play_rows X N 0 \<lparr>new = new0, births = 0, deaths = 0, ok = 0\<rparr> of
           None \<Rightarrow> Inl (Undefined ''array index out of bounds'')
         | Some s \<Rightarrow>
            (case copy_rows (new s) N 0 X of
               None \<Rightarrow> Inl (Undefined ''array index out of bounds'')
             | Some X' \<Rightarrow>
                Inr (X',
                  if deaths s + births s + ok s \<noteq> N * N
                  then [Warning ''Testing issue - not all cells were taken into account'']
                  else []))))"


subsection \<open>The pure step of the specification\<close>

text \<open>
  The step as the specification words it: the grid is a flat sequence in
  row-major order (index = row * N + col); the eight neighbours of \<open>(i, j)\<close>
  lie in the rows \<open>(i-1+N) mod N\<close>, \<open>i\<close>, \<open>(i+1) mod N\<close> and the columns
  \<open>(j-1+N) mod N\<close>, \<open>j\<close>, \<open>(j+1) mod N\<close>, the cell itself left out; their
  states are summed; the rule table gives the next state. Here \<open>mod\<close> is the
  mathematical remainder.
\<close>

abbreviation DEAD :: cint where "DEAD \<equiv> 0"
abbreviation ALIVE :: cint where "ALIVE \<equiv> 1"

definition valid_grid :: "cint list \<Rightarrow> bool" where
  "valid_grid X \<longleftrightarrow> list_all (\<lambda>x. x = DEAD \<or> x = ALIVE) X"

definition cell_at :: "cint list \<Rightarrow> int \<Rightarrow> int \<Rightarrow> int \<Rightarrow> cint" where
  "cell_at X N r c = X ! nat (r * N + c)"

definition torus_neighbours :: "int \<Rightarrow> int \<Rightarrow> int \<Rightarrow> (int \<times> int) list" where
  "torus_neighbours N i j =
    (let up = (i - 1 + N) mod N; down = (i + 1) mod N;
         left = (j - 1 + N) mod N; right = (j + 1) mod N
     in [(up, left), (up, j), (up, right),
         (i, left), (i, right),
         (down, left), (down, j), (down, right)])"

definition neighbour_sum :: "cint list \<Rightarrow> int \<Rightarrow> int \<Rightarrow> int \<Rightarrow> cint" where
  "neighbour_sum X N i j = (\<Sum>(r, c) \<leftarrow> torus_neighbours N i j. cell_at X N r c)"

text \<open>The live-neighbour sum of the glossary: how many of the eight neighbours are ALIVE.\<close>

definition live_neighbours :: "cint list \<Rightarrow> int \<Rightarrow> int \<Rightarrow> int \<Rightarrow> int" where
  "live_neighbours X N i j =
    int (length (filter (\<lambda>(r, c). cell_at X N r c = ALIVE) (torus_neighbours N i j)))"

text \<open>
  The rule table: birth, death by loneliness, death by overpopulation; the
  two remaining rows (barren, survival) leave the cell unchanged.
\<close>

definition rule_table :: "cint \<Rightarrow> cint \<Rightarrow> cint" where
  "rule_table x s =
    (if x = DEAD \<and> s = 3 then ALIVE
     else if x = ALIVE \<and> sint s < 2 then DEAD
     else if x = ALIVE \<and> sint s > 3 then DEAD
     else x)"

definition next_at :: "cint list \<Rightarrow> int \<Rightarrow> nat \<Rightarrow> cint" where
  "next_at X N k =
    rule_table (X ! k) (neighbour_sum X N (int k div N) (int k mod N))"

definition step :: "cint list \<Rightarrow> int \<Rightarrow> cint list" where
  "step X N = map (next_at X N) [0..<nat (N * N)]"

text \<open>The quantity the self-check of \<open>play\<close> compares with \<open>N * N\<close>.\<close>

definition total :: "tally \<Rightarrow> int" where
  "total s = deaths s + births s + ok s"

text \<open>No tally goes down from \<open>s\<close> to \<open>s'\<close>.\<close>

definition tally_le :: "tally \<Rightarrow> tally \<Rightarrow> bool" where
  "tally_le s s' \<longleftrightarrow> births s \<le> births s' \<and> deaths s \<le> deaths s' \<and> ok s \<le> ok s'"

subsection \<open>main: the generation loop\<close>

text \<open>
  \<open>for(gen=0; gen<t; gen++) play(table, N);\<close> entered at \<open>gen\<close>, with the
  warnings shown so far in \<open>out\<close>. \<open>mallocs gen\<close> is what \<open>malloc\<close> returns
  to the call of \<open>play\<close> in generation \<open>gen\<close>. The clock readings and the
  timing line printed around each call do not touch the board and are left out.
\<close>

function main_loop ::
  "(int \<Rightarrow> cint list option) \<Rightarrow> cint list \<Rightarrow> int \<Rightarrow> int \<Rightarrow> int \<Rightarrow> diag list
     \<Rightarrow> fault + (cint list \<times> diag list)" where
  "main_loop mallocs table N t gen out =
    (if gen < t then
       (case play table N (mallocs gen) of
          Inl e \<Rightarrow> Inl e
        | Inr (table', w) \<Rightarrow> main_loop mallocs table' N t (gen + 1) (out @ w))
     else Inr (table, out))"
  by pat_completeness auto
termination
  by (relation "measure (\<lambda>(mallocs, table, N, t, gen, out). nat (t - gen))") auto

subsection \<open>Files\<close>

text \<open>
  A file holds a sequence of \<open>int\<close> values (the byte encoding of each value is
  not modelled); the file system maps a name to the contents of the file of
  that name. \<open>fopen(name, "r+")\<close> yields a stream on an existing file and a
  null pointer otherwise. \<open>fread\<close> on a null stream is undefined; on a stream
  it stores as many values as the file has, at most \<open>count\<close>, at the start of
  the buffer and returns how many.
\<close>

type_synonym files = "string \<rightharpoonup> cint list"

definition fopen_read :: "files \<Rightarrow> string \<Rightarrow> cint list option" where
  "fopen_read fs name = fs name"

definition fread :: "cint list \<Rightarrow> int \<Rightarrow> cint list option \<Rightarrow> fault + (cint list \<times> int)" where
  "fread X count fp =
    (case fp of
       None \<Rightarrow> Inl (Undefined ''fread on a null stream'')
     | Some content \<Rightarrow>
        (let got = take (nat count) content in
         if length got \<le> length X
         then Inr (got @ drop (length got) X, int (length got))
         else Inl (Undefined ''fread past the end of the buffer'')))"

definition read_from_file ::
  "files \<Rightarrow> cint list \<Rightarrow> string \<Rightarrow> int \<Rightarrow> fault + (cint list \<times> diag list)" where
  "read_from_file fs X filename N =
    (let fp = fopen_read fs filename in
     case fread X (N * N) fp of
       Inl e \<Rightarrow> Inl e
     | Inr (X', size') \<Rightarrow>
        if fp = None then Inl (Died ''Couldn't open file to read'')
        else if size' = 0 then Inl (Died ''Couldn't read from file'')
        else Inr (X',
          if N * N \<noteq> size'
          then [Warning ''Expected to read different number of elements'']
          else []))"

text \<open>The conversion \<open>%d\<close> of \<open>sprintf\<close>.\<close>

function printf_nat :: "nat \<Rightarrow> string" where
  "printf_nat n =
    (if n < 10 then [''0123456789'' ! n]
     else printf_nat (n div 10) @ [''0123456789'' ! (n mod 10)])"
  by pat_completeness auto
termination
  by (relation "measure (\<lambda>n. n)") auto

definition printf_d :: "int \<Rightarrow> string" where
  "printf_d k = (if k < 0 then CHR ''-'' # printf_nat (nat (- k)) else printf_nat (nat k))"

text \<open>
  \<open>fopen(name, "w+")\<close> succeeds where \<open>writable name\<close> holds, and then the
  file exists and is empty. \<open>fwrite\<close> appends the first \<open>count\<close> values of the
  buffer, as far as the device has \<open>room\<close>, and returns how many went out.
\<close>

definition fwrite :: "cint list \<Rightarrow> int \<Rightarrow> nat \<Rightarrow> fault + (cint list \<times> int)" where
  "fwrite X count room =
    (if nat count \<le> length X
     then (let put = take (min (nat count) room) X in Inr (put, int (length put)))
     else Inl (Undefined ''fwrite past the end of the buffer''))"

definition write_to_file ::
  "files \<Rightarrow> (string \<Rightarrow> bool) \<Rightarrow> nat \<Rightarrow> cint list \<Rightarrow> string \<Rightarrow> int
     \<Rightarrow> fault + (files \<times> diag list)" where
  "write_to_file fs writable room X filename N =
    (let newfilename = ''table'' @ printf_d N @ ''x'' @ printf_d N @ ''_new.bin'' in
     if \<not> writable newfilename then Inl (Died ''Couldn't open file to write'')
     else
       (case fwrite X (N * N) room of
          Inl e \<Rightarrow> Inl e
        | Inr (put, size') \<Rightarrow>
           if size' = 0 then Inl (Died ''Couldn't write to file'')
           else Inr (fs(newfilename \<mapsto> put),
             if size' \<noteq> N * N
             then [Warning ''Expected to write different number of elements'']
             else [])))"

section \<open>Index arithmetic and array accesses\<close>

lemma smod_nonneg: "0 \<le> a \<Longrightarrow> 0 < b \<Longrightarrow> (a::int) smod b = a mod b"
  by (cases "a = 0") (simp_all add: smod_int_alt_def)

lemma idx_bounds:
  assumes "0 \<le> r" "r < N" "0 \<le> c" "c < (N::int)"
  shows "0 \<le> N * r + c" "N * r + c < N * N"
proof -
  have "N * r \<le> N * (N - 1)" using assms by (intro mult_left_mono) auto
  then show "N * r + c < N * N" using assms by (simp add: algebra_simps)
  show "0 \<le> N * r + c" using assms by simp
qed

lemma rd_Some: "0 \<le> k \<Longrightarrow> k < int (length A) \<Longrightarrow> rd A k = Some (A ! nat k)"
  by (simp add: rd_def)

lemma wr_Some: "0 \<le> k \<Longrightarrow> k < int (length A) \<Longrightarrow> wr A k v = Some (A[nat k := v])"
  by (simp add: wr_def)

lemma rd_cell:
  assumes "0 \<le> r" "r < N" "0 \<le> c" "c < N" "length X = nat (N * N)"
  shows "rd X (N * r + c) = Some (cell_at X N r c)"
  using idx_bounds[OF assms(1-4)] assms(5) by (simp add: rd_def cell_at_def mult.commute)

lemma play_sum_eq:
  assumes "1 \<le> N" "0 \<le> i" "i < N" "0 \<le> j" "j < N" "length X = nat (N * N)"
  shows "play_sum X N i j = Some (neighbour_sum X N i j)"
proof -
  have up: "((i - 1) + N) smod N = (i - 1 + N) mod N" using assms by (simp add: smod_nonneg)
  have down: "(i + 1) smod N = (i + 1) mod N" using assms by (simp add: smod_nonneg)
  have left: "((j - 1) + N) smod N = (j - 1 + N) mod N" using assms by (simp add: smod_nonneg)
  have right: "(j + 1) smod N = (j + 1) mod N" using assms by (simp add: smod_nonneg)
  have N: "0 < N" "N \<noteq> 0" using assms by auto
  have b: "0 \<le> (i - 1 + N) mod N" "(i - 1 + N) mod N < N" "0 \<le> (i + 1) mod N" "(i + 1) mod N < N"
     "0 \<le> (j - 1 + N) mod N" "(j - 1 + N) mod N < N" "0 \<le> (j + 1) mod N" "(j + 1) mod N < N"
    using N by simp_all
  show ?thesis
    unfolding play_sum_def up down left right Let_def
    using N(2) b assms(2-6)
    by (simp add: rd_cell neighbour_sum_def torus_neighbours_def Let_def add.assoc)
qed

section \<open>One cell\<close>

lemma next_at_cell:
  assumes "1 \<le> N" "0 \<le> i" "0 \<le> j" "j < N"
  shows "next_at X N (nat (i * N + j)) = rule_table (cell_at X N i j) (neighbour_sum X N i j)"
proof -
  have "0 \<le> i * N + j" using assms by simp
  then have "int (nat (i * N + j)) = i * N + j" by simp
  moreover have "(i * N + j) div N = i" "(i * N + j) mod N = j" using assms by simp_all
  ultimately show ?thesis by (simp add: next_at_def cell_at_def)
qed

lemma play_cell_eq:
  assumes "1 \<le> N" "0 \<le> i" "i < N" "0 \<le> j" "j < N"
    and "length X = nat (N * N)" "length (new s) = nat (N * N)"
  shows "\<exists>s'. play_cell X N i j s = Some s'
           \<and> new s' = (new s)[nat (i * N + j) := next_at X N (nat (i * N + j))]
           \<and> total s' = total s + 1 \<and> tally_le s s'"
proof -
  have r: "rd X (i * N + j) = Some (cell_at X N i j)"
    using rd_cell[OF assms(2-6)] by (simp add: mult.commute)
  have b: "0 \<le> i * N + j" "i * N + j < int (length (new s))"
    using idx_bounds[OF assms(2-5)] assms(7) by (simp_all add: mult.commute)
  show ?thesis
    unfolding play_cell_def
    by (simp add: play_sum_eq[OF assms(1-6)] r wr_Some[OF b] next_at_cell[OF assms(1,2,4,5)]
        rule_table_def total_def tally_le_def)
qed

lemma play_cell_one_tally:
  assumes "play_cell X N i j s = Some s'"
  shows "(births s', deaths s', ok s') \<in>
     {(births s + 1, deaths s, ok s), (births s, deaths s + 1, ok s), (births s, deaths s, ok s + 1)}"
proof -
  from assms obtain sum :: cint and x :: cint where
    c: "(if x = 0 \<and> sum = 3 then
        Option.bind (wr (new s) (i * N + j) 1) (\<lambda>new'. Some (s\<lparr>new := new', births := births s + 1\<rparr>))
      else if x = 1 \<and> (sint sum < 2 \<or> sint sum > 3) then
        Option.bind (wr (new s) (i * N + j) 0) (\<lambda>new'. Some (s\<lparr>new := new', deaths := deaths s + 1\<rparr>))
      else
        Option.bind (wr (new s) (i * N + j) x) (\<lambda>new'. Some (s\<lparr>new := new', ok := ok s + 1\<rparr>))) = Some s'"
    unfolding play_cell_def by (cases "play_sum X N i j"; cases "rd X (i * N + j)") simp_all
  consider (b) new' where "s' = s\<lparr>new := new', births := births s + 1\<rparr>"
    | (d) new' where "s' = s\<lparr>new := new', deaths := deaths s + 1\<rparr>"
    | (o) new' where "s' = s\<lparr>new := new', ok := ok s + 1\<rparr>"
    using c by (auto simp: Option.bind_eq_Some_conv split: if_splits)
  then show ?thesis by cases simp_all
qed

section \<open>The loops of play\<close>

lemma play_cols_eq:
  assumes "1 \<le> N" "0 \<le> i" "i < N" "0 \<le> j" "j \<le> N"
    and "length X = nat (N * N)" "length (new s) = nat (N * N)"
  shows "\<exists>s'. play_cols X N i j s = Some s'
           \<and> length (new s') = nat (N * N)
           \<and> (\<forall>k < nat (N * N). new s' ! k =
                 (if i * N + j \<le> int k \<and> int k < i * N + N then next_at X N k else new s ! k))
           \<and> total s' = total s + (N - j) \<and> tally_le s s'"
  using assms
proof (induction X N i j s rule: play_cols.induct)
  case (1 X N i j s)
  show ?case
  proof (cases "j < N")
    case False
    with "1.prems" have "j = N" by simp
    then show ?thesis using "1.prems" by (simp add: tally_le_def)
  next
    case True
    from play_cell_eq[OF "1.prems"(1-4) True "1.prems"(6,7)]
    obtain s1 where s1: "play_cell X N i j s = Some s1"
      "new s1 = (new s)[nat (i * N + j) := next_at X N (nat (i * N + j))]"
      "total s1 = total s + 1" "tally_le s s1" by blast
    have len1: "length (new s1) = nat (N * N)" using s1(2) "1.prems"(7) by simp
    from "1.IH"[OF True s1(1) "1.prems"(1-3) _ _ "1.prems"(6) len1] True "1.prems"(4)
    obtain s' where s': "play_cols X N i (j + 1) s1 = Some s'"
      "length (new s') = nat (N * N)"
      "\<forall>k < nat (N * N). new s' ! k =
         (if i * N + (j + 1) \<le> int k \<and> int k < i * N + N then next_at X N k else new s1 ! k)"
      "total s' = total s1 + (N - (j + 1))" "tally_le s1 s'" by auto
    have step: "play_cols X N i j s = Some s'" using True s1(1) s'(1) by simp
    have nn: "0 \<le> i * N + j" using "1.prems" by simp
    have "new s' ! k =
         (if i * N + j \<le> int k \<and> int k < i * N + N then next_at X N k else new s ! k)"
      if k: "k < nat (N * N)" for k
    proof (cases "k = nat (i * N + j)")
      case True
      then have "int k = i * N + j" using nn by simp
      then show ?thesis using s'(3) k s1(2) "1.prems"(7) \<open>j < N\<close> True by simp
    next
      case False
      then have "int k \<noteq> i * N + j" by auto
      then show ?thesis using s'(3) k s1(2) False
        by (auto simp del: play_cols.simps)
    qed
    moreover have "tally_le s s'" using s1(4) s'(5) by (simp add: tally_le_def)
    ultimately show ?thesis using step s'(2,4) s1(3) by (simp del: play_cols.simps)
  qed
qed

lemma play_rows_eq:
  assumes "0 \<le> i" "i \<le> N"
    and "length X = nat (N * N)" "length (new s) = nat (N * N)"
  shows "\<exists>s'. play_rows X N i s = Some s'
           \<and> length (new s') = nat (N * N)
           \<and> (\<forall>k < nat (N * N). new s' ! k =
                 (if i * N \<le> int k then next_at X N k else new s ! k))
           \<and> total s' = total s + (N - i) * N \<and> tally_le s s'"
  using assms
proof (induction X N i s rule: play_rows.induct)
  case (1 X N i s)
  show ?case
  proof (cases "i < N")
    case False
    with "1.prems" have "i = N" by simp
    then show ?thesis using "1.prems" by (auto simp add: zless_nat_eq_int_zless tally_le_def)
  next
    case True
    then have N1: "1 \<le> N" using "1.prems"(1) by simp
    from play_cols_eq[OF N1 "1.prems"(1) True _ _ "1.prems"(3,4), of 0] N1
    obtain s1 where s1: "play_cols X N i 0 s = Some s1"
      "length (new s1) = nat (N * N)"
      "\<forall>k < nat (N * N). new s1 ! k =
         (if i * N \<le> int k \<and> int k < i * N + N then next_at X N k else new s ! k)"
      "total s1 = total s + N" "tally_le s s1" by auto
    from "1.IH"[OF True s1(1) _ _ "1.prems"(3) s1(2)] True "1.prems"(1)
    obtain s' where s': "play_rows X N (i + 1) s1 = Some s'"
      "length (new s') = nat (N * N)"
      "\<forall>k < nat (N * N). new s' ! k =
         (if (i + 1) * N \<le> int k then next_at X N k else new s1 ! k)"
      "total s' = total s1 + (N - (i + 1)) * N" "tally_le s1 s'" by auto
    have step: "play_rows X N i s = Some s'" using True s1(1) s'(1) by simp
    have e: "(i + 1) * N = i * N + N" by (simp add: algebra_simps)
    have "new s' ! k = (if i * N \<le> int k then next_at X N k else new s ! k)"
      if k: "k < nat (N * N)" for k
      using s'(3) s1(3) k N1 unfolding e by auto
    moreover have "total s' = total s + (N - i) * N"
      using s'(4) s1(4) by (simp add: algebra_simps)
    moreover have "tally_le s s'" using s1(5) s'(5) by (simp add: tally_le_def)
    ultimately show ?thesis using step s'(2) by (simp del: play_rows.simps)
  qed
qed

lemma copy_cols_eq:
  assumes "1 \<le> N" "0 \<le> i" "i < N" "0 \<le> j" "j \<le> N"
    and "length nw = nat (N * N)" "length X = nat (N * N)"
  shows "\<exists>X'. copy_cols nw N i j X = Some X'
           \<and> length X' = nat (N * N)
           \<and> (\<forall>k < nat (N * N). X' ! k =
                 (if i * N + j \<le> int k \<and> int k < i * N + N then nw ! k else X ! k))"
  using assms
proof (induction nw N i j X rule: copy_cols.induct)
  case (1 nw N i j X)
  show ?case
  proof (cases "j < N")
    case False
    with "1.prems" have "j = N" by simp
    then show ?thesis using "1.prems" by (auto simp add: zless_nat_eq_int_zless)
  next
    case True
    have b: "0 \<le> i * N + j" "i * N + j < N * N"
      using idx_bounds[OF "1.prems"(2,3,4) True] by (simp_all add: mult.commute)
    have r: "rd nw (i * N + j) = Some (nw ! nat (i * N + j))"
      using b "1.prems"(6) by (simp add: rd_Some)
    define X1 where "X1 = X[nat (i * N + j) := nw ! nat (i * N + j)]"
    have w: "wr X (i * N + j) (nw ! nat (i * N + j)) = Some X1"
      using b "1.prems"(7) by (simp add: wr_Some X1_def)
    have len1: "length X1 = nat (N * N)" using "1.prems"(7) by (simp add: X1_def)
    from "1.IH"[OF True r w "1.prems"(1-3) _ _ "1.prems"(6) len1] True "1.prems"(4)
    obtain X' where X': "copy_cols nw N i (j + 1) X1 = Some X'"
      "length X' = nat (N * N)"
      "\<forall>k < nat (N * N). X' ! k =
         (if i * N + (j + 1) \<le> int k \<and> int k < i * N + N then nw ! k else X1 ! k)"
      by auto
    have step: "copy_cols nw N i j X = Some X'" using True r w X'(1) by simp
    have "X' ! k = (if i * N + j \<le> int k \<and> int k < i * N + N then nw ! k else X ! k)"
      if k: "k < nat (N * N)" for k
    proof (cases "k = nat (i * N + j)")
      case True
      then have "int k = i * N + j" using b by simp
      then show ?thesis using X'(3) k "1.prems"(7) \<open>j < N\<close> True by (simp add: X1_def)
    next
      case False
      then have "int k \<noteq> i * N + j" by auto
      then show ?thesis using X'(3) k False by (auto simp: X1_def)
    qed
    then show ?thesis using step X'(2) by (simp del: copy_cols.simps)
  qed
qed

lemma copy_rows_eq:
  assumes "0 \<le> i" "i \<le> N"
    and "length nw = nat (N * N)" "length X = nat (N * N)"
  shows "\<exists>X'. copy_rows nw N i X = Some X'
           \<and> length X' = nat (N * N)
           \<and> (\<forall>k < nat (N * N). X' ! k = (if i * N \<le> int k then nw ! k else X ! k))"
  using assms
proof (induction nw N i X rule: copy_rows.induct)
  case (1 nw N i X)
  show ?case
  proof (cases "i < N")
    case False
    with "1.prems" have "i = N" by simp
    then show ?thesis using "1.prems" by (auto simp add: zless_nat_eq_int_zless)
  next
    case True
    then have N1: "1 \<le> N" using "1.prems"(1) by simp
    from copy_cols_eq[OF N1 "1.prems"(1) True _ _ "1.prems"(3,4), of 0] N1
    obtain X1 where X1: "copy_cols nw N i 0 X = Some X1"
      "length X1 = nat (N * N)"
      "\<forall>k < nat (N * N). X1 ! k =
         (if i * N \<le> int k \<and> int k < i * N + N then nw ! k else X ! k)" by auto
    from "1.IH"[OF True X1(1) _ _ "1.prems"(3) X1(2)] True "1.prems"(1)
    obtain X' where X': "copy_rows nw N (i + 1) X1 = Some X'"
      "length X' = nat (N * N)"
      "\<forall>k < nat (N * N). X' ! k = (if (i + 1) * N \<le> int k then nw ! k else X1 ! k)"
      by auto
    have step: "copy_rows nw N i X = Some X'" using True X1(1) X'(1) by simp
    have e: "(i + 1) * N = i * N + N" by (simp add: algebra_simps)
    have "X' ! k = (if i * N \<le> int k then nw ! k else X ! k)"
      if k: "k < nat (N * N)" for k
      using X'(3) X1(3) k N1 unfolding e by auto
    then show ?thesis using step X'(2) by (simp del: copy_rows.simps)
  qed
qed

section \<open>play computes the pure step\<close>

lemma length_step: "length (step X N) = nat (N * N)"
  by (simp add: step_def)

lemma play_rows_step:
  assumes "0 \<le> N" "length X = nat (N * N)" "length new0 = nat (N * N)"
  shows "\<exists>s. play_rows X N 0 \<lparr>new = new0, births = 0, deaths = 0, ok = 0\<rparr> = Some s
           \<and> new s = step X N \<and> deaths s + births s + ok s = N * N
           \<and> 0 \<le> births s \<and> 0 \<le> deaths s \<and> 0 \<le> ok s"
proof -
  let ?s0 = "\<lparr>new = new0, births = 0, deaths = 0, ok = 0\<rparr>"
  from play_rows_eq[of 0 N X ?s0] assms
  obtain s where s: "play_rows X N 0 ?s0 = Some s" "length (new s) = nat (N * N)"
    "\<forall>k < nat (N * N). new s ! k = next_at X N k" "total s = total ?s0 + (N - 0) * N"
    "tally_le ?s0 s"
    by auto
  have "new s = step X N"
    by (rule nth_equalityI) (simp_all add: s(2,3) step_def)
  moreover have "deaths s + births s + ok s = N * N"
    using s(4) by (simp add: total_def)
  moreover have "0 \<le> births s \<and> 0 \<le> deaths s \<and> 0 \<le> ok s"
    using s(5) by (simp add: tally_le_def)
  ultimately show ?thesis using s(1) by blast
qed

lemma copy_rows_all:
  assumes "0 \<le> N" "length nw = nat (N * N)" "length X = nat (N * N)"
  shows "copy_rows nw N 0 X = Some nw"
proof -
  from copy_rows_eq[of 0 N nw X] assms
  obtain X' where X': "copy_rows nw N 0 X = Some X'" "length X' = nat (N * N)"
    "\<forall>k < nat (N * N). X' ! k = nw ! k" by auto
  have "X' = nw"
    by (rule nth_equalityI) (simp_all add: X'(2,3) assms(2))
  then show ?thesis using X'(1) by simp
qed

lemma play_step:
  assumes "0 \<le> N" "length X = nat (N * N)" "length new0 = nat (N * N)"
  shows "play X N (Some new0) = Inr (step X N, [])"
proof -
  from play_rows_step[OF assms]
  obtain s where s: "play_rows X N 0 \<lparr>new = new0, births = 0, deaths = 0, ok = 0\<rparr> = Some s"
    "new s = step X N" "deaths s + births s + ok s = N * N" by blast
  have c: "copy_rows (new s) N 0 X = Some (step X N)"
    using copy_rows_all[OF assms(1) _ assms(2), of "step X N"] s(2) by (simp add: length_step)
  show ?thesis
    unfolding play_def using s(1,3) c by (simp del: play_rows.simps copy_rows.simps)
qed

section \<open>Grids of DEAD and ALIVE cells\<close>

lemma sint_of_nat_small:
  assumes "n \<le> 8"
  shows "sint (of_nat n :: cint) = int n"
proof -
  have "int n < 2 ^ 31" using assms by simp
  moreover have "- (2 ^ 31) \<le> int n" by simp
  ultimately show ?thesis
    by (simp add: signed_of_nat signed_take_bit_int_eq_self)
qed

lemma sum_list_01:
  assumes "\<forall>x \<in> set xs. x = DEAD \<or> x = ALIVE"
  shows "sum_list xs = (of_nat (length (filter (\<lambda>x. x = ALIVE) xs)) :: cint)"
  using assms by (induction xs) auto

lemma torus_neighbours_range:
  assumes "1 \<le> N" "0 \<le> i" "i < N" "0 \<le> j" "j < N"
  shows "\<forall>(r, c) \<in> set (torus_neighbours N i j). 0 \<le> r \<and> r < N \<and> 0 \<le> c \<and> c < N"
  using assms by (simp add: torus_neighbours_def Let_def)

lemma length_torus_neighbours: "length (torus_neighbours N i j) = 8"
  by (simp add: torus_neighbours_def Let_def)

lemma valid_cell_at:
  assumes "valid_grid X" "length X = nat (N * N)" "0 \<le> r" "r < N" "0 \<le> c" "c < N"
  shows "cell_at X N r c = DEAD \<or> cell_at X N r c = ALIVE"
proof -
  have "nat (r * N + c) < length X"
    using idx_bounds[OF assms(3-6)] assms(2) by (simp add: mult.commute)
  then show ?thesis using assms(1) by (simp add: valid_grid_def cell_at_def list_all_length)
qed

lemma neighbour_sum_live:
  assumes "valid_grid X" "length X = nat (N * N)" "1 \<le> N" "0 \<le> i" "i < N" "0 \<le> j" "j < N"
  shows "neighbour_sum X N i j = of_nat (nat (live_neighbours X N i j))"
    and "0 \<le> live_neighbours X N i j" and "live_neighbours X N i j \<le> 8"
proof -
  let ?ns = "torus_neighbours N i j"
  let ?f = "\<lambda>(r, c). cell_at X N r c"
  have "\<forall>x \<in> set (map ?f ?ns). x = DEAD \<or> x = ALIVE"
    using torus_neighbours_range[OF assms(3-7)] valid_cell_at[OF assms(1,2)] by fastforce
  from sum_list_01[OF this]
  have "neighbour_sum X N i j = of_nat (length (filter (\<lambda>x. x = ALIVE) (map ?f ?ns)))"
    by (simp add: neighbour_sum_def)
  also have "filter (\<lambda>x. x = ALIVE) (map ?f ?ns) = map ?f (filter (\<lambda>(r, c). cell_at X N r c = ALIVE) ?ns)"
    by (simp add: filter_map comp_def case_prod_unfold)
  finally show "neighbour_sum X N i j = of_nat (nat (live_neighbours X N i j))"
    by (simp add: live_neighbours_def)
  show "0 \<le> live_neighbours X N i j" by (simp add: live_neighbours_def)
  have "length (filter (\<lambda>(r, c). cell_at X N r c = ALIVE) ?ns) \<le> length ?ns"
    by (rule length_filter_le)
  then show "live_neighbours X N i j \<le> 8"
    by (simp add: live_neighbours_def length_torus_neighbours)
qed

lemma neighbour_sum_sint:
  assumes "valid_grid X" "length X = nat (N * N)" "1 \<le> N" "0 \<le> i" "i < N" "0 \<le> j" "j < N"
  shows "sint (neighbour_sum X N i j) = live_neighbours X N i j"
  using neighbour_sum_live[OF assms] sint_of_nat_small[of "nat (live_neighbours X N i j)"]
  by simp

lemma neighbour_sum_eq_3:
  assumes "valid_grid X" "length X = nat (N * N)" "1 \<le> N" "0 \<le> i" "i < N" "0 \<le> j" "j < N"
  shows "neighbour_sum X N i j = 3 \<longleftrightarrow> live_neighbours X N i j = 3"
proof
  assume "neighbour_sum X N i j = 3"
  then have "sint (neighbour_sum X N i j) = 3" by simp
  then show "live_neighbours X N i j = 3" using neighbour_sum_sint[OF assms] by simp
next
  assume "live_neighbours X N i j = 3"
  then show "neighbour_sum X N i j = 3" using neighbour_sum_live(1)[OF assms] by simp
qed

lemma rule_table_valid: "x = DEAD \<or> x = ALIVE \<Longrightarrow> rule_table x s = DEAD \<or> rule_table x s = ALIVE"
  by (auto simp: rule_table_def)

lemma valid_step:
  assumes "valid_grid X" "length X = nat (N * N)"
  shows "valid_grid (step X N)"
  using assms
  by (auto simp: valid_grid_def step_def list_all_length next_at_def intro!: rule_table_valid)

lemma next_at_rule:
  assumes "valid_grid X" "length X = nat (N * N)" "1 \<le> N" "0 \<le> i" "i < N" "0 \<le> j" "j < N"
  shows "cell_at (step X N) N i j =
     (if cell_at X N i j = DEAD
      then (if live_neighbours X N i j = 3 then ALIVE else DEAD)
      else (if live_neighbours X N i j < 2 \<or> live_neighbours X N i j > 3 then DEAD else ALIVE))"
proof -
  have b: "0 \<le> N * i + j" "N * i + j < N * N" using idx_bounds[OF assms(4-7)] .
  then have "nat (i * N + j) < nat (N * N)" by (simp add: mult.commute)
  then have "cell_at (step X N) N i j = next_at X N (nat (i * N + j))"
    by (simp add: cell_at_def step_def)
  also have "\<dots> = rule_table (cell_at X N i j) (neighbour_sum X N i j)"
    by (rule next_at_cell[OF assms(3,4,6,7)])
  finally show ?thesis
    using valid_cell_at[OF assms(1,2,4-7)] neighbour_sum_sint[OF assms] neighbour_sum_eq_3[OF assms]
    by (auto simp: rule_table_def)
qed

lemma corner_grid:
  assumes "1 \<le> N"
  defines "G \<equiv> (replicate (nat (N * N)) DEAD)[nat ((N - 1) * N + (N - 1)) := ALIVE]"
  shows "valid_grid G" "length G = nat (N * N)" "1 \<le> live_neighbours G N 0 0"
proof -
  show len: "length G = nat (N * N)" by (simp add: G_def)
  have "set G \<subseteq> insert ALIVE (set (replicate (nat (N * N)) DEAD))"
    unfolding G_def by (rule set_update_subset_insert)
  then show "valid_grid G" by (auto simp: valid_grid_def list_all_iff)
  have b: "0 \<le> N * (N - 1) + (N - 1)" "N * (N - 1) + (N - 1) < N * N"
    using idx_bounds[of "N - 1" N "N - 1"] assms(1) by simp_all
  then have "nat ((N - 1) * N + (N - 1)) < length (replicate (nat (N * N)) DEAD)"
    by (simp add: mult.commute)
  then have alive: "cell_at G N (N - 1) (N - 1) = ALIVE"
    unfolding cell_at_def G_def by (rule nth_list_update_eq)
  have "(N - 1) mod N = N - 1" using assms(1) by (intro mod_pos_pos_trivial) simp_all
  moreover have "0 - 1 + N = N - 1" by simp
  ultimately have "(0 - 1 + N) mod N = N - 1" by (simp only:)
  then have mem: "(N - 1, N - 1) \<in> set (torus_neighbours N 0 0)"
    by (simp add: torus_neighbours_def Let_def)
  have "0 < length (filter (\<lambda>(r, c). cell_at G N r c = ALIVE) (torus_neighbours N 0 0))"
    using mem alive by (auto simp: filter_empty_conv)
  then show "1 \<le> live_neighbours G N 0 0" unfolding live_neighbours_def by linarith
qed

section \<open>The generation loop\<close>

lemma main_loop_eq:
  assumes "0 \<le> N" "length table = nat (N * N)"
    and "\<forall>g. gen \<le> g \<and> g < t \<longrightarrow> (\<exists>b. mallocs g = Some b \<and> length b = nat (N * N))"
  shows "main_loop mallocs table N t gen out
       = Inr (((\<lambda>X. step X N) ^^ nat (t - gen)) table, out)"
  using assms
proof (induction mallocs table N t gen out rule: main_loop.induct)
  case (1 mallocs table N t gen out)
  show ?case
  proof (cases "gen < t")
    case False
    then show ?thesis by simp
  next
    case True
    from "1.prems"(3) True obtain b where b: "mallocs gen = Some b" "length b = nat (N * N)"
      by auto
    have p: "play table N (mallocs gen) = Inr (step table N, [])"
      unfolding b(1) by (rule play_step[OF "1.prems"(1,2) b(2)])
    have m: "\<forall>g. gen + 1 \<le> g \<and> g < t \<longrightarrow> (\<exists>b. mallocs g = Some b \<and> length b = nat (N * N))"
      using "1.prems"(3) by auto
    have "main_loop mallocs table N t gen out
          = main_loop mallocs (step table N) N t (gen + 1) (out @ [])"
      using True p by (subst main_loop.simps) (simp del: main_loop.simps)
    also have "\<dots> = Inr (((\<lambda>X. step X N) ^^ nat (t - (gen + 1))) (step table N), out @ [])"
      by (rule "1.IH"[OF True p refl "1.prems"(1) _ m]) (simp add: length_step)
    also have "((\<lambda>X. step X N) ^^ nat (t - (gen + 1))) (step table N)
          = ((\<lambda>X. step X N) ^^ Suc (nat (t - (gen + 1)))) table"
      using funpow_swap1[of "\<lambda>X. step X N" "nat (t - (gen + 1))" table] by simp
    also have "Suc (nat (t - (gen + 1))) = nat (t - gen)" using True by simp
    finally show ?thesis by simp
  qed
qed

section \<open>Files\<close>

text \<open>With no file of that name, the read happens on the null stream.\<close>

lemma read_from_file_no_file:
  assumes "fs filename = None"
  shows "read_from_file fs X filename N = Inl (Undefined ''fread on a null stream'')"
  using assms by (simp add: read_from_file_def fopen_read_def fread_def)

text \<open>
  \<open>write_to_file\<close> changes one file, the one named after \<open>N\<close>; any file of
  another name is as it was.
\<close>

lemma write_to_file_frame:
  assumes "write_to_file fs writable room X filename N = Inr (fs', w)"
    and "name \<noteq> ''table'' @ printf_d N @ ''x'' @ printf_d N @ ''_new.bin''"
  shows "fs' name = fs name"
  using assms
  by (auto simp: write_to_file_def Let_def split: if_splits sum.splits prod.splits)

section \<open>The claims\<close>

text \<open>
  In what follows a grid of side \<open>N\<close> is a list of \<open>N * N\<close> cells, and the
  buffer that \<open>malloc\<close> hands to \<open>play\<close> has \<open>N * N\<close> cells of any content.
\<close>

text \<open>
  Claim C1. On a grid of DEAD and ALIVE cells, one call of \<open>play\<close> returns
  without fault or warning, and the cell at any position \<open>(i, j)\<close> follows the
  rule table, where \<open>s\<close> is the number of ALIVE cells among its eight toroidal
  neighbours: DEAD with \<open>s = 3\<close> becomes ALIVE, DEAD with \<open>s \<noteq> 3\<close> stays
  DEAD, ALIVE with \<open>s < 2\<close> or \<open>s > 3\<close> becomes DEAD, ALIVE with \<open>s\<close> in
  \<open>{2, 3}\<close> stays ALIVE; the new cell is DEAD or ALIVE, so there is no other
  transition.
\<close>

theorem play_applies_rule_table:
  assumes "valid_grid X" "1 \<le> N" "length X = nat (N * N)" "length new0 = nat (N * N)"
    and "0 \<le> i" "i < N" "0 \<le> j" "j < N"
  shows "\<exists>X'. play X N (Some new0) = Inr (X', []) \<and>
     (let x = cell_at X N i j; s = live_neighbours X N i j; x' = cell_at X' N i j
      in (x = DEAD \<and> s = 3 \<longrightarrow> x' = ALIVE)
       \<and> (x = DEAD \<and> s \<noteq> 3 \<longrightarrow> x' = DEAD)
       \<and> (x = ALIVE \<and> (s < 2 \<or> s > 3) \<longrightarrow> x' = DEAD)
       \<and> (x = ALIVE \<and> (s = 2 \<or> s = 3) \<longrightarrow> x' = ALIVE)
       \<and> (x' = DEAD \<or> x' = ALIVE))"
proof -
  have N0: "0 \<le> N" using assms(2) by simp
  have p: "play X N (Some new0) = Inr (step X N, [])"
    by (rule play_step[OF N0 assms(3,4)])
  have r: "cell_at (step X N) N i j =
     (if cell_at X N i j = DEAD
      then (if live_neighbours X N i j = 3 then ALIVE else DEAD)
      else (if live_neighbours X N i j < 2 \<or> live_neighbours X N i j > 3 then DEAD else ALIVE))"
    by (rule next_at_rule[OF assms(1,3,2,5-8)])
  show ?thesis
    by (rule exI[of _ "step X N"]) (simp add: p r Let_def)
qed

text \<open>The four rows of the table at cell \<open>(0, 0)\<close> of four 3 x 3 grids.\<close>

theorem play_applies_rule_table_witness:
  "(\<exists>X'. play [DEAD, ALIVE, ALIVE, ALIVE, DEAD, DEAD, DEAD, DEAD, DEAD] 3
            (Some [9, 9, 9, 9, 9, 9, 9, 9, 9]) = Inr (X', []) \<and> cell_at X' 3 0 0 = ALIVE)
 \<and> (\<exists>X'. play [DEAD, ALIVE, DEAD, DEAD, DEAD, DEAD, DEAD, DEAD, DEAD] 3
            (Some [9, 9, 9, 9, 9, 9, 9, 9, 9]) = Inr (X', []) \<and> cell_at X' 3 0 0 = DEAD)
 \<and> (\<exists>X'. play [ALIVE, DEAD, DEAD, DEAD, DEAD, DEAD, DEAD, DEAD, DEAD] 3
            (Some [9, 9, 9, 9, 9, 9, 9, 9, 9]) = Inr (X', []) \<and> cell_at X' 3 0 0 = DEAD)
 \<and> (\<exists>X'. play [ALIVE, ALIVE, ALIVE, DEAD, DEAD, DEAD, DEAD, DEAD, DEAD] 3
            (Some [9, 9, 9, 9, 9, 9, 9, 9, 9]) = Inr (X', []) \<and> cell_at X' 3 0 0 = ALIVE)"
  using
    play_applies_rule_table [of "[DEAD, ALIVE, ALIVE, ALIVE, DEAD, DEAD, DEAD, DEAD, DEAD]" 3
      "[9, 9, 9, 9, 9, 9, 9, 9, 9]" 0 0]
    play_applies_rule_table [of "[DEAD, ALIVE, DEAD, DEAD, DEAD, DEAD, DEAD, DEAD, DEAD]" 3
      "[9, 9, 9, 9, 9, 9, 9, 9, 9]" 0 0]
    play_applies_rule_table [of "[ALIVE, DEAD, DEAD, DEAD, DEAD, DEAD, DEAD, DEAD, DEAD]" 3
      "[9, 9, 9, 9, 9, 9, 9, 9, 9]" 0 0]
    play_applies_rule_table [of "[ALIVE, ALIVE, ALIVE, DEAD, DEAD, DEAD, DEAD, DEAD, DEAD]" 3
      "[9, 9, 9, 9, 9, 9, 9, 9, 9]" 0 0]
  by (simp add: valid_grid_def live_neighbours_def torus_neighbours_def cell_at_def Let_def) blast

text \<open>
  Claim C2. For \<open>N \<ge> 1\<close> and a cell \<open>(i, j)\<close> of the grid, the \<open>sum\<close> of
  \<open>play\<close> is the sum of the eight cells in the rows \<open>(i-1+N) mod N\<close>, \<open>i\<close>,
  \<open>(i+1) mod N\<close> and the columns \<open>(j-1+N) mod N\<close>, \<open>j\<close>, \<open>(j+1) mod N\<close>,
  the cell itself left out. On the grid whose only ALIVE cell is
  \<open>(N-1, N-1)\<close>, the sum at the corner \<open>(0, 0)\<close> is at least 1: the corner
  counts the cell across both edges.
\<close>

theorem play_sum_is_toroidal:
  assumes "1 \<le> N" "0 \<le> i" "i < N" "0 \<le> j" "j < N" "length X = nat (N * N)"
  shows "play_sum X N i j = Some (\<Sum>(r, c) \<leftarrow> torus_neighbours N i j. X ! nat (r * N + c))
       \<and> (\<exists>s. play_sum ((replicate (nat (N * N)) DEAD)[nat ((N - 1) * N + (N - 1)) := ALIVE]) N 0 0
               = Some s \<and> 1 \<le> sint s)"
proof
  show "play_sum X N i j = Some (\<Sum>(r, c) \<leftarrow> torus_neighbours N i j. X ! nat (r * N + c))"
    using play_sum_eq[OF assms] by (simp add: neighbour_sum_def cell_at_def)
next
  let ?G = "(replicate (nat (N * N)) DEAD)[nat ((N - 1) * N + (N - 1)) := ALIVE]"
  note g = corner_grid[OF assms(1)]
  have N: "0 \<le> (0::int)" "0 < N" using assms(1) by simp_all
  have "play_sum ?G N 0 0 = Some (neighbour_sum ?G N 0 0)"
    by (rule play_sum_eq[OF assms(1) N N g(2)])
  moreover have "sint (neighbour_sum ?G N 0 0) = live_neighbours ?G N 0 0"
    by (rule neighbour_sum_sint[OF g(1,2) assms(1) N N])
  ultimately show "\<exists>s. play_sum ?G N 0 0 = Some s \<and> 1 \<le> sint s"
    using g(3) by simp
qed

theorem play_sum_is_toroidal_witness:
  "play_sum [DEAD, DEAD, DEAD, DEAD, DEAD, DEAD, DEAD, DEAD, ALIVE] 3 0 0 = Some 1
   \<and> (\<exists>s. play_sum [DEAD, DEAD, DEAD, DEAD, DEAD, DEAD, DEAD, DEAD, ALIVE] 3 0 0 = Some s \<and> 1 \<le> sint s)"
  using play_sum_is_toroidal [of 3 0 0 "[DEAD, DEAD, DEAD, DEAD, DEAD, DEAD, DEAD, DEAD, ALIVE]"]
  by (simp add: torus_neighbours_def Let_def eval_nat_numeral)

text \<open>
  Claim C3. The board that \<open>play\<close> leaves in \<open>X\<close>, after filling the fresh
  buffer and copying it back, is the pure step of the input board: every
  cell is computed from the input alone, whatever the fresh buffer held.
\<close>

theorem play_is_simultaneous_step:
  assumes "0 \<le> N" "length X = nat (N * N)" "length new0 = nat (N * N)"
  shows "play X N (Some new0) = Inr (step X N, [])"
  using assms by (rule play_step)

text \<open>
  A 3 x 3 grid on which updating the cells one after the other in place would
  leave the centre DEAD; every cell comes out ALIVE.
\<close>

theorem play_is_simultaneous_step_witness:
  "play [DEAD, ALIVE, ALIVE, ALIVE, DEAD, DEAD, DEAD, DEAD, DEAD] 3
        (Some [9, 9, 9, 9, 9, 9, 9, 9, 9])
     = Inr (step [DEAD, ALIVE, ALIVE, ALIVE, DEAD, DEAD, DEAD, DEAD, DEAD] 3, [])
   \<and> step [DEAD, ALIVE, ALIVE, ALIVE, DEAD, DEAD, DEAD, DEAD, DEAD] 3
     = [ALIVE, ALIVE, ALIVE, ALIVE, ALIVE, ALIVE, ALIVE, ALIVE, ALIVE]"
proof
  show "play [DEAD, ALIVE, ALIVE, ALIVE, DEAD, DEAD, DEAD, DEAD, DEAD] 3
        (Some [9, 9, 9, 9, 9, 9, 9, 9, 9])
     = Inr (step [DEAD, ALIVE, ALIVE, ALIVE, DEAD, DEAD, DEAD, DEAD, DEAD] 3, [])"
    using play_is_simultaneous_step
      [of 3 "[DEAD, ALIVE, ALIVE, ALIVE, DEAD, DEAD, DEAD, DEAD, DEAD]"
          "[9, 9, 9, 9, 9, 9, 9, 9, 9]"]
    by simp
next
  show "step [DEAD, ALIVE, ALIVE, ALIVE, DEAD, DEAD, DEAD, DEAD, DEAD] 3
     = [ALIVE, ALIVE, ALIVE, ALIVE, ALIVE, ALIVE, ALIVE, ALIVE, ALIVE]"
    by code_simp
qed

text \<open>
  Claim C4. Every pass through the loop body adds one to exactly one of
  \<open>births\<close>, \<open>deaths\<close> and \<open>ok\<close>; after the rule loops the three tallies
  are non-negative and add up to \<open>N * N\<close>, and \<open>play\<close> returns with no
  warning: the self-check never fires.
\<close>

theorem play_tallies_every_cell:
  assumes "0 \<le> N" "length X = nat (N * N)" "length new0 = nat (N * N)"
  shows "(\<exists>s X'. play_rows X N 0 \<lparr>new = new0, births = 0, deaths = 0, ok = 0\<rparr> = Some s
            \<and> 0 \<le> births s \<and> 0 \<le> deaths s \<and> 0 \<le> ok s
            \<and> births s + deaths s + ok s = N * N
            \<and> play X N (Some new0) = Inr (X', []))
       \<and> (\<forall>i j s s'. play_cell X N i j s = Some s' \<longrightarrow>
            (births s', deaths s', ok s') \<in>
              {(births s + 1, deaths s, ok s), (births s, deaths s + 1, ok s),
               (births s, deaths s, ok s + 1)})"
proof
  from play_rows_step[OF assms]
  obtain s where s: "play_rows X N 0 \<lparr>new = new0, births = 0, deaths = 0, ok = 0\<rparr> = Some s"
    "deaths s + births s + ok s = N * N" "0 \<le> births s" "0 \<le> deaths s" "0 \<le> ok s"
    by blast
  have "births s + deaths s + ok s = N * N" using s(2) by simp
  then show "\<exists>s X'. play_rows X N 0 \<lparr>new = new0, births = 0, deaths = 0, ok = 0\<rparr> = Some s
            \<and> 0 \<le> births s \<and> 0 \<le> deaths s \<and> 0 \<le> ok s
            \<and> births s + deaths s + ok s = N * N
            \<and> play X N (Some new0) = Inr (X', [])"
    using s(1,3,4,5) play_step[OF assms] by blast
next
  show "\<forall>i j s s'. play_cell X N i j s = Some s' \<longrightarrow>
            (births s', deaths s', ok s') \<in>
              {(births s + 1, deaths s, ok s), (births s, deaths s + 1, ok s),
               (births s, deaths s, ok s + 1)}"
    using play_cell_one_tally by blast
qed

text \<open>
  On a 2 x 2 grid; the cell \<open>(0, 0)\<close> is ALIVE with neighbour sum 4 and is
  counted as a death.
\<close>

theorem play_tallies_every_cell_witness:
  "(\<exists>s X'. play_rows [ALIVE, DEAD, DEAD, ALIVE] 2 0
               \<lparr>new = [7, 7, 7, 7], births = 0, deaths = 0, ok = 0\<rparr> = Some s
            \<and> 0 \<le> births s \<and> 0 \<le> deaths s \<and> 0 \<le> ok s
            \<and> births s + deaths s + ok s = 2 * 2
            \<and> play [ALIVE, DEAD, DEAD, ALIVE] 2 (Some [7, 7, 7, 7]) = Inr (X', []))
   \<and> (\<exists>s'. play_cell [ALIVE, DEAD, DEAD, ALIVE] 2 0 0
               \<lparr>new = [7, 7, 7, 7], births = 0, deaths = 0, ok = 0\<rparr> = Some s'
            \<and> (births s', deaths s', ok s') = (0, 1, 0))"
proof
  show "\<exists>s X'. play_rows [ALIVE, DEAD, DEAD, ALIVE] 2 0
               \<lparr>new = [7, 7, 7, 7], births = 0, deaths = 0, ok = 0\<rparr> = Some s
            \<and> 0 \<le> births s \<and> 0 \<le> deaths s \<and> 0 \<le> ok s
            \<and> births s + deaths s + ok s = 2 * 2
            \<and> play [ALIVE, DEAD, DEAD, ALIVE] 2 (Some [7, 7, 7, 7]) = Inr (X', [])"
    using play_tallies_every_cell [of 2 "[ALIVE, DEAD, DEAD, ALIVE]" "[7, 7, 7, 7]"]
    by (simp del: play_rows.simps)
next
  show "\<exists>s'. play_cell [ALIVE, DEAD, DEAD, ALIVE] 2 0 0
               \<lparr>new = [7, 7, 7, 7], births = 0, deaths = 0, ok = 0\<rparr> = Some s'
            \<and> (births s', deaths s', ok s') = (0, 1, 0)"
    by (simp add: play_cell_def play_sum_def rd_def wr_def smod_int_alt_def)
qed

text \<open>
  Claim C5. As long as every \<open>malloc\<close> succeeds, the generation loop of
  \<open>main\<close>, entered at generation 0, returns the \<open>t\<close>-fold iterate of the
  pure step of the board and shows no warning; with \<open>t = 0\<close> it returns the
  board it was given.
\<close>

theorem main_loop_iterates_step:
  assumes "0 \<le> N" "length table = nat (N * N)"
    and "\<forall>g. 0 \<le> g \<and> g < t \<longrightarrow> (\<exists>b. mallocs g = Some b \<and> length b = nat (N * N))"
  shows "main_loop mallocs table N t 0 [] = Inr (((\<lambda>X. step X N) ^^ nat t) table, [])
       \<and> main_loop mallocs table N 0 0 [] = Inr (table, [])"
  using main_loop_eq[OF assms(1,2), of 0 t mallocs "[]"] assms(3) by simp

text \<open>A blinker on the 4 x 4 torus: two generations bring it back.\<close>

theorem main_loop_iterates_step_witness:
  "main_loop (\<lambda>gen. Some (replicate 16 9))
      [DEAD, DEAD, DEAD, DEAD,
       ALIVE, ALIVE, ALIVE, DEAD,
       DEAD, DEAD, DEAD, DEAD,
       DEAD, DEAD, DEAD, DEAD] 4 2 0 []
     = Inr ([DEAD, DEAD, DEAD, DEAD,
             ALIVE, ALIVE, ALIVE, DEAD,
             DEAD, DEAD, DEAD, DEAD,
             DEAD, DEAD, DEAD, DEAD], [])
   \<and> main_loop (\<lambda>gen. Some (replicate 16 9))
      [DEAD, DEAD, DEAD, DEAD,
       ALIVE, ALIVE, ALIVE, DEAD,
       DEAD, DEAD, DEAD, DEAD,
       DEAD, DEAD, DEAD, DEAD] 4 0 0 []
     = Inr ([DEAD, DEAD, DEAD, DEAD,
             ALIVE, ALIVE, ALIVE, DEAD,
             DEAD, DEAD, DEAD, DEAD,
             DEAD, DEAD, DEAD, DEAD], [])
   \<and> step [DEAD, DEAD, DEAD, DEAD,
       ALIVE, ALIVE, ALIVE, DEAD,
       DEAD, DEAD, DEAD, DEAD,
       DEAD, DEAD, DEAD, DEAD] 4
     = [DEAD, ALIVE, DEAD, DEAD,
        DEAD, ALIVE, DEAD, DEAD,
        DEAD, ALIVE, DEAD, DEAD,
        DEAD, DEAD, DEAD, DEAD]"
proof -
  let ?X = "[DEAD, DEAD, DEAD, DEAD,
             ALIVE, ALIVE, ALIVE, DEAD,
             DEAD, DEAD, DEAD, DEAD,
             DEAD, DEAD, DEAD, DEAD]"
  let ?m = "\<lambda>gen::int. Some (replicate 16 (9::cint))"
  note loop = main_loop_iterates_step [of 4 ?X 2 ?m]
  have "((\<lambda>X. step X 4) ^^ nat 2) ?X = step (step ?X 4) 4"
    by (simp add: eval_nat_numeral)
  also have "\<dots> = ?X" by code_simp
  finally have two: "main_loop ?m ?X 4 2 0 [] = Inr (?X, [])"
    using loop by (simp del: main_loop.simps)
  have none: "main_loop ?m ?X 4 0 0 [] = Inr (?X, [])"
    using loop by (simp del: main_loop.simps)
  have once: "step ?X 4
     = [DEAD, ALIVE, DEAD, DEAD,
        DEAD, ALIVE, DEAD, DEAD,
        DEAD, ALIVE, DEAD, DEAD,
        DEAD, DEAD, DEAD, DEAD]"
    by code_simp
  show ?thesis using two none once by (simp only: simp_thms)
qed

text \<open>
  Claim C6. On a grid of DEAD and ALIVE cells, \<open>play\<close> returns a grid of
  DEAD and ALIVE cells of the same size.
\<close>

theorem play_keeps_valid_grid:
  assumes "valid_grid X" "0 \<le> N" "length X = nat (N * N)" "length new0 = nat (N * N)"
  shows "\<exists>X'. play X N (Some new0) = Inr (X', []) \<and> valid_grid X' \<and> length X' = nat (N * N)"
  using play_step[OF assms(2-4)] valid_step[OF assms(1,3)] by (simp add: length_step)

theorem play_keeps_valid_grid_witness:
  "\<exists>X'. play [ALIVE, DEAD, DEAD, ALIVE] 2 (Some [7, 7, 7, 7]) = Inr (X', []) \<and> valid_grid X' \<and> length X' = 4"
  using play_keeps_valid_grid [of "[ALIVE, DEAD, DEAD, ALIVE]" 2 "[7, 7, 7, 7]"]
  by (simp add: valid_grid_def)

text \<open>
  Claim C7, at an input that breaks it. The input file is named
  \<open>table2x2_new.bin\<close> and holds four ALIVE cells; \<open>N = 2\<close> and the final
  board is all DEAD. \<open>write_to_file\<close> writes to \<open>table2x2_new.bin\<close>: the
  destination is the input file, and its contents are replaced.
\<close>

theorem write_to_file_overwrites_input:
  "write_to_file [''table2x2_new.bin'' \<mapsto> [ALIVE, ALIVE, ALIVE, ALIVE]] (\<lambda>name. True) 4
       [DEAD, DEAD, DEAD, DEAD] ''table2x2_new.bin'' 2
     = Inr ([''table2x2_new.bin'' \<mapsto> [DEAD, DEAD, DEAD, DEAD]], [])"
  by (simp add: write_to_file_def fwrite_def printf_d_def Let_def)

text \<open>
  Claim C8, at an input that breaks it. No file named \<open>missing.bin\<close> exists.
  \<open>read_from_file\<close> calls \<open>fread\<close> on the null stream before it tests the
  stream: the outcome is the undefined read, not the exit with
  \<open>Couldn't open file to read\<close>.
\<close>

theorem read_from_file_unopened_freads:
  "read_from_file Map.empty [5, 6, 7, 8] ''missing.bin'' 2
     = Inl (Undefined ''fread on a null stream'')
   \<and> read_from_file Map.empty [5, 6, 7, 8] ''missing.bin'' 2
     \<noteq> Inl (Died ''Couldn't open file to read'')"
  by (simp add: read_from_file_def fopen_read_def fread_def)

text \<open>
  Claim C9. Let the file be open and the buffer have \<open>N * N\<close> cells. If the
  file holds at least one and fewer than \<open>N * N\<close> values, \<open>read_from_file\<close>
  returns with the count warning, the values read at the start of the buffer
  and the rest of the buffer as it was, and \<open>play\<close> runs on that buffer
  without fault. \<open>read_from_file\<close> is fatal exactly when no value is read,
  and then with \<open>Couldn't read from file\<close>.
\<close>

theorem read_from_file_short_read:
  assumes "fs filename = Some content" "length X = nat (N * N)"
  shows "(0 < length content \<and> int (length content) < N * N \<longrightarrow>
            read_from_file fs X filename N
              = Inr (content @ drop (length content) X,
                     [Warning ''Expected to read different number of elements''])
          \<and> (\<forall>new0. length new0 = nat (N * N) \<longrightarrow>
                (\<exists>X' w. play (content @ drop (length content) X) N (Some new0) = Inr (X', w))))
       \<and> ((\<exists>e. read_from_file fs X filename N = Inl e) \<longleftrightarrow> content = [] \<or> N = 0)
       \<and> (\<forall>e. read_from_file fs X filename N = Inl e \<longrightarrow> e = Died ''Couldn't read from file'')"
proof -
  have le: "length (take (nat (N * N)) content) \<le> length X" using assms(2) by simp
  have r: "read_from_file fs X filename N =
      (if take (nat (N * N)) content = [] then Inl (Died ''Couldn't read from file'')
       else Inr (take (nat (N * N)) content @ drop (length (take (nat (N * N)) content)) X,
              if N * N \<noteq> int (length (take (nat (N * N)) content))
              then [Warning ''Expected to read different number of elements''] else []))"
    using le
    by (auto simp add: read_from_file_def fopen_read_def fread_def assms(1) Let_def
        min_def split: if_splits)
  have sq: "N * N \<le> 0 \<longleftrightarrow> N = 0"
    by (auto simp: mult_le_0_iff)
  have z: "take (nat (N * N)) content = [] \<longleftrightarrow> content = [] \<or> N = 0"
    by (auto simp: sq)
  have short: "read_from_file fs X filename N
              = Inr (content @ drop (length content) X,
                     [Warning ''Expected to read different number of elements''])"
    if "0 < length content" "int (length content) < N * N"
  proof -
    have "take (nat (N * N)) content = content" using that by simp
    then show ?thesis using that unfolding r by auto
  qed
  have eng: "\<exists>X' w. play (content @ drop (length content) X) N (Some new0) = Inr (X', w)"
    if "0 < length content" "int (length content) < N * N" "length new0 = nat (N * N)" for new0
  proof (cases "0 \<le> N")
    case True
    have "length (content @ drop (length content) X) = nat (N * N)"
      using that assms(2) by auto
    from play_step[OF True this that(3)] show ?thesis by blast
  next
    case False
    then show ?thesis by (simp add: play_def)
  qed
  show ?thesis using short eng unfolding r z by auto
qed

theorem read_from_file_short_read_witness:
  "read_from_file [''board.bin'' \<mapsto> [ALIVE, DEAD]] [5, 6, 7, 8] ''board.bin'' 2
     = Inr ([ALIVE, DEAD, 7, 8], [Warning ''Expected to read different number of elements''])
   \<and> (\<exists>X' w. play [ALIVE, DEAD, 7, 8] 2 (Some [9, 9, 9, 9]) = Inr (X', w))"
  using read_from_file_short_read
    [of "[''board.bin'' \<mapsto> [ALIVE, DEAD]]" "''board.bin''" "[ALIVE, DEAD]" "[5, 6, 7, 8]" 2]
  by simp

text \<open>
  Claim C10. For \<open>N = 1\<close> all eight reads hit the single cell: the sum is
  eight times its value, and \<open>play\<close> turns the grid of one DEAD or ALIVE cell
  into the grid of one DEAD cell.
\<close>

theorem play_one_by_one:
  "play_sum [x] 1 0 0 = Some (8 * x)
   \<and> (x = DEAD \<or> x = ALIVE \<longrightarrow> play [x] 1 (Some [g]) = Inr ([DEAD], []))"
proof
  show s: "play_sum [x] 1 0 0 = Some (8 * x)"
    by (simp add: play_sum_def rd_def smod_int_alt_def)
  have "play [x] 1 (Some [g]) = Inr (step [x] 1, [])"
    by (rule play_step) simp_all
  moreover have "neighbour_sum [x] 1 0 0 = 8 * x"
    using play_sum_eq[of 1 0 0 "[x]"] s by simp
  then have "x = DEAD \<or> x = ALIVE \<Longrightarrow> step [x] 1 = [DEAD]"
    by (auto simp: step_def next_at_def rule_table_def)
  ultimately show "x = DEAD \<or> x = ALIVE \<longrightarrow> play [x] 1 (Some [g]) = Inr ([DEAD], [])"
    by simp
qed

theorem play_one_by_one_witness:
  "play_sum [ALIVE] 1 0 0 = Some 8 \<and> play [ALIVE] 1 (Some [7]) = Inr ([DEAD], [])"
  using play_one_by_one [of ALIVE 7] by simp

end
